theory Spec2Isabelle
  imports Complex_Main "HOL-Library.Char_ord" "HOL-Library.List_Lexorder"
begin

section \<open>OTU clustering (agc.py): shallow embedding\<close>

text \<open>
  The embedding follows \<^verbatim>\<open>src/agc/agc.py\<close>. A Python \<^verbatim>\<open>str\<close> is a \<open>string\<close>; each
  \<open>char\<close> stands for one code point below 256, which covers the nucleotide alphabet, the
  gap character and the FASTA header marker. Python's \<^verbatim>\<open>int\<close> is \<open>int\<close>. A generator that
  is consumed to its end is the list of the values it yields, in order. An exception is a
  value of the type \<open>error\<close>, returned as \<open>Inl\<close>.
\<close>

datatype error = StopIteration | IndexError | ZeroDivisionError | AlignmentError

subsection \<open>read\_fasta\<close>

text \<open>
  The opened file is the list of its text lines, as the iteration over \<^verbatim>\<open>file_in\<close> gives
  them. \<^verbatim>\<open>line.startswith(">")\<close> looks at the first character only; \<^verbatim>\<open>line.strip()\<close>
  removes the leading and the trailing whitespace of the line.
\<close>

definition startswith_gt :: "string \<Rightarrow> bool" where
  "startswith_gt line = (case line of [] \<Rightarrow> False | c # _ \<Rightarrow> c = CHR ''>'')"

definition isspace :: "char \<Rightarrow> bool" where
  "isspace c = ((of_char c :: nat) \<in> {9, 10, 11, 12, 13, 28, 29, 30, 31, 32, 133, 160})"

definition strip :: "string \<Rightarrow> string" where
  "strip line = rev (dropWhile isspace (rev (dropWhile isspace line)))"

text \<open>
  The loop of \<^verbatim>\<open>read_fasta\<close>: the third argument is the local variable \<^verbatim>\<open>seq\<close>. The
  equation for the empty list is the \<^verbatim>\<open>yield seq\<close> after the loop.
\<close>

fun read_fasta_loop :: "string list \<Rightarrow> int \<Rightarrow> string \<Rightarrow> string list" where
  "read_fasta_loop [] minseqlen seq = [seq]"
| "read_fasta_loop (line # file_in) minseqlen seq =
     (if startswith_gt line then
        (if int (length seq) \<ge> minseqlen
         then seq # read_fasta_loop file_in minseqlen []
         else read_fasta_loop file_in minseqlen [])
      else read_fasta_loop file_in minseqlen (seq @ strip line))"

definition read_fasta :: "string list \<Rightarrow> int \<Rightarrow> string list" where
  "read_fasta amplicon_file minseqlen = read_fasta_loop amplicon_file minseqlen []"

text \<open>
  The specification's reading of the reader, to compare with the loop: \<open>accumulated\<close>
  lists every sequence that has been accumulated when a flush point is reached, one per
  header line and one at the end of the stream, with no length filter at all.
\<close>

fun accumulated :: "string list \<Rightarrow> string \<Rightarrow> string list" where
  "accumulated [] seq = [seq]"
| "accumulated (line # file_in) seq =
     (if startswith_gt line then seq # accumulated file_in []
      else accumulated file_in (seq @ strip line))"

subsection \<open>dereplication\_fulllength\<close>

text \<open>
  \<^verbatim>\<open>sorted(xs, key=key, reverse=True)\<close>: Python's sort is stable, and with \<^verbatim>\<open>reverse=True\<close>
  it keeps the original order of elements with equal keys: the list is reversed, sorted
  in ascending order by a stable sort, and reversed again. Strings are compared
  lexicographically by code point, which is the order of \<open>string\<close> here.
\<close>

definition sorted_reverse :: "('a \<Rightarrow> 'k::linorder) \<Rightarrow> 'a list \<Rightarrow> 'a list" where
  "sorted_reverse key xs = rev (sort_key key (rev xs))"

text \<open>
  \<^verbatim>\<open>Counter(iterable)\<close> is a dictionary that keeps its keys in the order of their first
  insertion: an association list. Each element does
  \<^verbatim>\<open>self[elem] = self.get(elem, 0) + 1\<close>.
\<close>

fun counter_add :: "('a \<times> int) list \<Rightarrow> 'a \<Rightarrow> ('a \<times> int) list" where
  "counter_add [] elem = [(elem, 0 + 1)]"
| "counter_add ((k, c) # items) elem =
     (if k = elem then (k, c + 1) # items else (k, c) # counter_add items elem)"

definition Counter :: "'a list \<Rightarrow> ('a \<times> int) list" where
  "Counter iterable = foldl counter_add [] iterable"

text \<open>
  \<^verbatim>\<open>most_common()\<close> with no argument is
  \<^verbatim>\<open>sorted(self.items(), key=itemgetter(1), reverse=True)\<close>.
\<close>

definition most_common :: "('a \<times> int) list \<Rightarrow> ('a \<times> int) list" where
  "most_common items = sorted_reverse snd items"

definition dereplication_fulllength :: "string list \<Rightarrow> int \<Rightarrow> int \<Rightarrow> (string \<times> int) list" where
  "dereplication_fulllength amplicon_file minseqlen mincount =
     (let amplicon_sorted = sorted_reverse (\<lambda>x. x) (read_fasta amplicon_file minseqlen);
          occurence = Counter amplicon_sorted
      in filter (\<lambda>(seq, count). count \<ge> mincount) (most_common occurence))"

text \<open>
  The keys of a list in the order of their first occurrence: the order in which a
  \<^verbatim>\<open>Counter\<close> holds them. Used to state what \<open>Counter\<close> computes.
\<close>

definition first_seen :: "'a list \<Rightarrow> 'a list" where
  "first_seen xs = rev (remdups (rev xs))"

subsection \<open>Floating point\<close>

text \<open>
  A Python \<^verbatim>\<open>float\<close> is an IEEE 754 binary64 number. A finite one is modelled by the
  rational number it denotes, and each operation rounds the exact result to the nearest
  number with a significand of 53 bits, ties to the even significand. The exponent range
  is not modelled (no overflow, no subnormal numbers): the floats of this program are
  counts of characters, their products by 100 and quotients between 0 and 100.

  \<open>bit_length\<close> is the number of binary digits of a natural number; \<open>exponent q\<close> is the
  integer \<open>e\<close> with \<open>2 ^ e \<le> q < 2 ^ (e + 1)\<close> for a positive \<open>q\<close>.
\<close>

definition round_half_even :: "rat \<Rightarrow> int" where
  "round_half_even q =
     (let n = \<lfloor>q\<rfloor>; r = q - of_int n
      in if r < 1 / 2 then n else if r > 1 / 2 then n + 1 else if even n then n else n + 1)"

fun bit_length :: "nat \<Rightarrow> nat" where
  "bit_length n = (if n = 0 then 0 else Suc (bit_length (n div 2)))"

declare bit_length.simps [simp del]

definition pow2 :: "int \<Rightarrow> rat" where
  "pow2 e = (if e \<ge> 0 then 2 ^ nat e else 1 / 2 ^ nat (- e))"

definition exponent :: "rat \<Rightarrow> int" where
  "exponent q =
     (let (a, b) = quotient_of q;
          d = int (bit_length (nat a)) - int (bit_length (nat b))
      in if pow2 d \<le> q then d else d - 1)"

definition binary64 :: "rat \<Rightarrow> rat" where
  "binary64 q =
     (if q = 0 then 0
      else let e = exponent \<bar>q\<bar> - 52
           in sgn q * of_int (round_half_even (\<bar>q\<bar> / pow2 e)) * pow2 e)"

text \<open>
  The conversion of an \<^verbatim>\<open>int\<close> operand, the product, the true division (which raises
  on a zero divisor) and \<^verbatim>\<open>round(x, 2)\<close>: the exact value of \<open>x\<close> is rounded to the
  nearest multiple of \<open>1 / 100\<close>, ties to the even multiple, and the float nearest to
  that decimal number is returned.
\<close>

definition float_of_int :: "int \<Rightarrow> rat" where
  "float_of_int n = binary64 (of_int n)"

definition float_mul :: "rat \<Rightarrow> rat \<Rightarrow> rat" where
  "float_mul x y = binary64 (x * y)"

definition float_truediv :: "rat \<Rightarrow> rat \<Rightarrow> error + rat" where
  "float_truediv x y = (if y = 0 then Inl ZeroDivisionError else Inr (binary64 (x / y)))"

definition round_ndigits :: "rat \<Rightarrow> nat \<Rightarrow> rat" where
  "round_ndigits x ndigits =
     binary64 (of_int (round_half_even (x * 10 ^ ndigits)) / 10 ^ ndigits)"

subsection \<open>get\_identity\<close>

text \<open>
  Indexing a list or a string with a non-negative index raises \<^verbatim>\<open>IndexError\<close> out of
  range.
\<close>

definition getitem :: "'a list \<Rightarrow> nat \<Rightarrow> error + 'a" where
  "getitem xs i = (if i < length xs then Inr (xs ! i) else Inl IndexError)"

text \<open>
  The sum over the generator expression
  \<^verbatim>\<open>1 for i in range(...) if alignment_list[0][i] == alignment_list[1][i]\<close>:
  the second argument is what is left of the range, the third the running sum. Each
  round evaluates \<^verbatim>\<open>alignment_list[0][i]\<close>, then \<^verbatim>\<open>alignment_list[1][i]\<close>.
\<close>

fun sum_identical :: "string list \<Rightarrow> nat list \<Rightarrow> int \<Rightarrow> error + int" where
  "sum_identical alignment_list [] acc = Inr acc"
| "sum_identical alignment_list (i # rest) acc =
     (case getitem alignment_list 0 of Inl e \<Rightarrow> Inl e | Inr a0 \<Rightarrow>
      case getitem a0 i of Inl e \<Rightarrow> Inl e | Inr x \<Rightarrow>
      case getitem alignment_list 1 of Inl e \<Rightarrow> Inl e | Inr a1 \<Rightarrow>
      case getitem a1 i of Inl e \<Rightarrow> Inl e | Inr y \<Rightarrow>
        sum_identical alignment_list rest (if x = y then acc + 1 else acc))"

definition get_identity :: "string list \<Rightarrow> error + rat" where
  "get_identity alignment_list =
     (case getitem alignment_list 0 of Inl e \<Rightarrow> Inl e | Inr a0 \<Rightarrow>
      case sum_identical alignment_list [0..<length a0] 0 of Inl e \<Rightarrow> Inl e | Inr s \<Rightarrow>
      case float_truediv (float_mul 100 (float_of_int s)) (float_of_int (int (length a0))) of
        Inl e \<Rightarrow> Inl e
      | Inr rate \<Rightarrow> Inr (round_ndigits rate 2))"

text \<open>
  The number of columns at which two strings hold the same character, as the
  specification counts them; to compare with \<open>sum_identical\<close>.
\<close>

definition identical_columns :: "string \<Rightarrow> string \<Rightarrow> nat" where
  "identical_columns a b = length (filter (\<lambda>(x, y). x = y) (zip a b))"

subsection \<open>abundance\_greedy\_clustering\<close>

text \<open>
  \<^verbatim>\<open>nw.global_align\<close> belongs to the library nwalign3, which is not part of the
  repository: the clustering takes it as a parameter, a function from the two sequences
  to the pair of aligned strings, or to an exception. The gap penalties and the matrix
  of the call are fixed, so they are part of that function.
\<close>

type_synonym aligner = "string \<Rightarrow> string \<Rightarrow> error + (string \<times> string)"

definition identity_of :: "aligner \<Rightarrow> string \<times> int \<Rightarrow> string \<times> int \<Rightarrow> error + rat" where
  "identity_of global_align i j =
     (case global_align (fst i) (fst j) of
        Inl e \<Rightarrow> Inl e
      | Inr (a, b) \<Rightarrow> get_identity [a, b])"

text \<open>
  The inner loop over \<^verbatim>\<open>list_OTU\<close>: the result is the value of \<^verbatim>\<open>unique\<close> when the loop
  is left, by \<^verbatim>\<open>break\<close> or at the end of the list.
\<close>

fun scan_OTU :: "aligner \<Rightarrow> string \<times> int \<Rightarrow> (string \<times> int) list \<Rightarrow> error + bool" where
  "scan_OTU global_align i [] = Inr True"
| "scan_OTU global_align i (j # list_OTU) =
     (case identity_of global_align i j of
        Inl e \<Rightarrow> Inl e
      | Inr identity \<Rightarrow>
          if identity \<ge> 97 then Inr False else scan_OTU global_align i list_OTU)"

text \<open>The outer loop over what is left of the generator \<^verbatim>\<open>dereplication\<close>.\<close>

fun clustering_loop ::
  "aligner \<Rightarrow> (string \<times> int) list \<Rightarrow> (string \<times> int) list \<Rightarrow> error + (string \<times> int) list" where
  "clustering_loop global_align [] list_OTU = Inr list_OTU"
| "clustering_loop global_align (i # dereplication) list_OTU =
     (case scan_OTU global_align i list_OTU of
        Inl e \<Rightarrow> Inl e
      | Inr unique \<Rightarrow>
          clustering_loop global_align dereplication
            (if unique then list_OTU @ [i] else list_OTU))"

text \<open>
  \<^verbatim>\<open>next(dereplication)\<close> raises \<^verbatim>\<open>StopIteration\<close> on a generator that yields nothing.
\<close>

definition abundance_greedy_clustering ::
  "aligner \<Rightarrow> string list \<Rightarrow> int \<Rightarrow> int \<Rightarrow> int \<Rightarrow> int \<Rightarrow> error + (string \<times> int) list" where
  "abundance_greedy_clustering global_align amplicon_file minseqlen mincount chunk_size kmer_size =
     (case dereplication_fulllength amplicon_file minseqlen mincount of
        [] \<Rightarrow> Inl StopIteration
      | first # dereplication \<Rightarrow> clustering_loop global_align dereplication [first])"

text \<open>
  An aligner to evaluate the clustering on concrete inputs: it fills the shorter
  sequence with gap characters at its end. It stands for the library in examples only.
\<close>

definition pad_align :: aligner where
  "pad_align a b =
     Inr (a @ replicate (length b - length a) CHR ''-'',
          b @ replicate (length a - length b) CHR ''-'')"

section \<open>Properties of read\_fasta\<close>

lemma accumulated_not_Nil: "accumulated file_in seq \<noteq> []"
  by (induction file_in arbitrary: seq) auto

lemma read_fasta_loop_not_Nil: "read_fasta_loop file_in minseqlen seq \<noteq> []"
  by (induction file_in arbitrary: seq) auto

lemma read_fasta_loop_accumulated:
  "read_fasta_loop file_in minseqlen seq =
     filter (\<lambda>s. int (length s) \<ge> minseqlen) (butlast (accumulated file_in seq))
       @ [last (accumulated file_in seq)]"
  by (induction file_in arbitrary: seq) (auto simp: accumulated_not_Nil)

lemma read_fasta_loop_append:
  "read_fasta_loop (pre @ post) minseqlen seq =
     butlast (read_fasta_loop pre minseqlen seq)
       @ read_fasta_loop post minseqlen (last (read_fasta_loop pre minseqlen seq))"
  by (induction pre arbitrary: seq) (auto simp: read_fasta_loop_not_Nil)

text \<open>
  Claim C7. When a header line is met, the sequence accumulated so far is yielded exactly
  when its length is at least \<open>minseqlen\<close>; at the end of the stream the accumulated
  sequence is yielded whatever its length. Stated on the loop (a header step and the end of
  the stream) and as a whole: the output is the filtered list of the sequences flushed at
  headers, followed by the unfiltered last one.
\<close>

theorem read_fasta_flush:
  "(startswith_gt line \<longrightarrow>
      read_fasta_loop (line # file_in) minseqlen seq =
        (if int (length seq) \<ge> minseqlen then [seq] else [])
          @ read_fasta_loop file_in minseqlen [])
   \<and> read_fasta_loop [] minseqlen seq = [seq]
   \<and> read_fasta amplicon_file minseqlen =
        filter (\<lambda>s. int (length s) \<ge> minseqlen) (butlast (accumulated amplicon_file []))
          @ [last (accumulated amplicon_file [])]
   \<and> last (read_fasta amplicon_file minseqlen) = last (accumulated amplicon_file [])"
proof (intro conjI impI)
  assume "startswith_gt line"
  then show "read_fasta_loop (line # file_in) minseqlen seq =
      (if int (length seq) \<ge> minseqlen then [seq] else [])
        @ read_fasta_loop file_in minseqlen []"
    by simp
next
  show "read_fasta_loop [] minseqlen seq = [seq]"
    by simp
next
  show "read_fasta amplicon_file minseqlen =
      filter (\<lambda>s. int (length s) \<ge> minseqlen) (butlast (accumulated amplicon_file []))
        @ [last (accumulated amplicon_file [])]"
    unfolding read_fasta_def by (rule read_fasta_loop_accumulated)
next
  show "last (read_fasta amplicon_file minseqlen) = last (accumulated amplicon_file [])"
    unfolding read_fasta_def by (subst read_fasta_loop_accumulated) simp
qed

theorem read_fasta_flush_witness:
  "startswith_gt ''>r1''
   \<and> read_fasta_loop [''>r1'', ''AC''] 4 ''ACG'' = [''AC'']
   \<and> read_fasta_loop [''>r1'', ''AC''] 3 ''ACG'' = [''ACG'', ''AC'']
   \<and> read_fasta [''>r1'', ''ACGT'', ''>r2'', ''AC''] 4 = [''ACGT'', ''AC'']"
  using read_fasta_flush [of "''>r1''" "[''AC'']" 4 "''ACG''" "[]"]
  by (simp add: read_fasta_def startswith_gt_def strip_def isspace_def)

text \<open>
  Claim C10. \<^verbatim>\<open>read_fasta\<close> yields at least one element for every list of lines and every
  \<open>minseqlen\<close>. On a file with no line, and on a file whose last line is a header, the last
  element yielded is the empty string.
\<close>

theorem read_fasta_nonempty:
  "read_fasta amplicon_file minseqlen \<noteq> []
   \<and> read_fasta [] minseqlen = [[]]
   \<and> (startswith_gt header \<longrightarrow> last (read_fasta (pre @ [header]) minseqlen) = [])"
  by (simp add: read_fasta_def read_fasta_loop_not_Nil read_fasta_loop_append)

theorem read_fasta_nonempty_witness:
  "startswith_gt ''>r2''
   \<and> read_fasta [''>r1'', ''ACGT'', ''>r2''] 400 = [[]]
   \<and> last (read_fasta ([''>r1'', ''ACGT''] @ [''>r2'']) 400) = []"
  using read_fasta_nonempty [of "[]" 400 "''>r2''" "[''>r1'', ''ACGT'']"]
  by (simp add: read_fasta_def startswith_gt_def strip_def isspace_def)

section \<open>Properties of dereplication\_fulllength\<close>

lemma first_seen_snoc:
  "first_seen (xs @ [x]) = (if x \<in> set xs then first_seen xs else first_seen xs @ [x])"
  by (simp add: first_seen_def)

lemma set_first_seen: "set (first_seen xs) = set xs"
  by (simp add: first_seen_def)

lemma distinct_first_seen: "distinct (first_seen xs)"
  by (simp add: first_seen_def)

lemma counter_add_tabulate:
  "distinct ks \<Longrightarrow>
   counter_add (map (\<lambda>k. (k, f k)) ks) x =
     (if x \<in> set ks then map (\<lambda>k. (k, if k = x then f k + 1 else f k)) ks
      else map (\<lambda>k. (k, f k)) ks @ [(x, 1)])"
  by (induction ks) auto

lemma Counter_snoc: "Counter (xs @ [x]) = counter_add (Counter xs) x"
  by (simp add: Counter_def)

lemma Counter_tabulate:
  "Counter xs = map (\<lambda>k. (k, int (count_list xs k))) (first_seen xs)"
proof (induction xs rule: rev_induct)
  case Nil
  show ?case by (simp add: Counter_def first_seen_def)
next
  case (snoc x xs)
  show ?case
    by (cases "x \<in> set xs")
      (auto simp add: Counter_snoc snoc counter_add_tabulate first_seen_snoc
        distinct_first_seen set_first_seen)
qed

lemma insort_key_lex:
  assumes "sorted_wrt (\<lambda>a b. snd a < snd b \<or> (snd a = snd b \<and> fst a < fst b)) zs"
    and "\<forall>z \<in> set zs. fst y < fst z"
  shows "sorted_wrt (\<lambda>a b. snd a < snd b \<or> (snd a = snd b \<and> fst a < fst b))
           (insort_key snd y zs)"
  using assms by (induction zs) (auto simp: set_insort_key)

lemma sort_key_lex:
  fixes ys :: "('a::linorder \<times> 'b::linorder) list"
  assumes "sorted_wrt (<) (map fst ys)"
  shows "sorted_wrt (\<lambda>a b. snd a < snd b \<or> (snd a = snd b \<and> fst a < fst b))
           (sort_key snd ys)"
  using assms
proof (induction ys)
  case Nil
  show ?case by simp
next
  case (Cons y ys)
  then show ?case
    by (auto intro!: insort_key_lex)
qed

lemma count_list_sorted_reverse:
  "count_list (sorted_reverse (\<lambda>x. x) R) k = count_list R k"
proof -
  have "count_list (sorted_reverse (\<lambda>x. x) R) k = length (filter ((=) k) (sort_key (\<lambda>x. x) (rev R)))"
    by (simp add: sorted_reverse_def count_list_eq_length_filter flip: rev_filter)
  also have "\<dots> = length (filter ((=) k) (rev R))"
    by (simp add: filter_sort)
  also have "\<dots> = count_list R k"
    by (simp add: count_list_eq_length_filter flip: rev_filter)
  finally show ?thesis .
qed

lemma most_common_Counter:
  "most_common (Counter (sorted_reverse (\<lambda>x. x) R)) =
     rev (sort_key snd (map (\<lambda>k. (k, int (count_list R k))) (remdups (sort (rev R)))))"
  by (simp add: most_common_def sorted_reverse_def [of snd] Counter_tabulate
      count_list_sorted_reverse first_seen_def rev_map)
     (simp add: sorted_reverse_def)

lemma most_common_Counter_sorted:
  "sorted_wrt (\<lambda>a b. snd a > snd b \<or> (snd a = snd b \<and> fst a > fst b))
     (most_common (Counter (sorted_reverse (\<lambda>x. x) R)))"
proof -
  let ?ys = "map (\<lambda>k. (k, int (count_list R k))) (remdups (sort (rev R)))"
  have "map fst ?ys = remdups (sort (rev R))"
    by (simp add: comp_def)
  then have "sorted_wrt (<) (map fst ?ys)"
    by (simp add: strict_sorted_iff sorted_remdups)
  then have "sorted_wrt (\<lambda>a b. snd a < snd b \<or> (snd a = snd b \<and> fst a < fst b)) (sort_key snd ?ys)"
    by (rule sort_key_lex)
  then show ?thesis
    by (simp add: most_common_Counter sorted_wrt_rev eq_commute)
qed

lemma set_most_common_Counter:
  "set (most_common (Counter (sorted_reverse (\<lambda>x. x) R))) =
     (\<lambda>k. (k, int (count_list R k))) ` set R"
  by (simp add: most_common_Counter)

lemma distinct_most_common_Counter:
  "distinct (map fst (most_common (Counter (sorted_reverse (\<lambda>x. x) R))))"
proof -
  let ?ys = "map (\<lambda>k. (k, int (count_list R k))) (remdups (sort (rev R)))"
  have "distinct (map fst ?ys)"
    by (simp add: comp_def)
  then have "distinct (map fst (sort_key snd ?ys))"
    by (simp only: distinct_map distinct_sort set_sort)
  then show ?thesis
    by (simp only: most_common_Counter rev_map [symmetric] distinct_rev)
qed

lemma distinct_dereplication_fulllength:
  "distinct (dereplication_fulllength amplicon_file minseqlen mincount)"
proof -
  have "distinct (map fst (dereplication_fulllength amplicon_file minseqlen mincount))"
    unfolding dereplication_fulllength_def Let_def
    by (rule distinct_map_filter) (rule distinct_most_common_Counter)
  then show ?thesis by (simp add: distinct_map)
qed

text \<open>
  Claim C2. The output of \<^verbatim>\<open>dereplication_fulllength\<close> holds each sequence at most once;
  its counts never increase along the output, and two neighbours with the same count come
  in descending lexicographic order of their sequences; a pair is in the output exactly
  when its sequence was read, its count is the number of times it was read, and that count
  is at least \<open>mincount\<close>.
\<close>

theorem dereplication_fulllength_order:
  "distinct (map fst (dereplication_fulllength amplicon_file minseqlen mincount))
   \<and> sorted_wrt (\<lambda>a b. snd a \<ge> snd b) (dereplication_fulllength amplicon_file minseqlen mincount)
   \<and> sorted_wrt (\<lambda>a b. snd a > snd b \<or> (snd a = snd b \<and> fst a > fst b))
        (dereplication_fulllength amplicon_file minseqlen mincount)
   \<and> (\<forall>seq count. (seq, count) \<in> set (dereplication_fulllength amplicon_file minseqlen mincount) \<longleftrightarrow>
          seq \<in> set (read_fasta amplicon_file minseqlen)
          \<and> count = int (count_list (read_fasta amplicon_file minseqlen) seq)
          \<and> count \<ge> mincount)"
proof (intro conjI allI)
  let ?d = "dereplication_fulllength amplicon_file minseqlen mincount"
  show "distinct (map fst ?d)"
    unfolding dereplication_fulllength_def Let_def
    by (rule distinct_map_filter) (rule distinct_most_common_Counter)
  show lex: "sorted_wrt (\<lambda>a b. snd a > snd b \<or> (snd a = snd b \<and> fst a > fst b)) ?d"
    unfolding dereplication_fulllength_def Let_def
    by (rule sorted_wrt_filter) (rule most_common_Counter_sorted)
  show "sorted_wrt (\<lambda>a b. snd a \<ge> snd b) ?d"
    by (rule sorted_wrt_mono_rel [OF _ lex]) auto
  fix seq count
  show "(seq, count) \<in> set ?d \<longleftrightarrow>
          seq \<in> set (read_fasta amplicon_file minseqlen)
          \<and> count = int (count_list (read_fasta amplicon_file minseqlen) seq)
          \<and> count \<ge> mincount"
    unfolding dereplication_fulllength_def Let_def
    by (auto simp: set_most_common_Counter)
qed

theorem dereplication_fulllength_order_witness:
  "dereplication_fulllength
     [''>r1'', ''AAAA'', ''>r2'', ''AAAA'', ''>r3'', ''TTTT'', ''>r4'', ''TTTT'', ''>r5'', ''TTTT'',
      ''>r6'', ''CCCC'', ''>r7'', ''CCCC'', ''>r8'', ''GGGG''] 4 2
     = [(''TTTT'', 3), (''CCCC'', 2), (''AAAA'', 2)]
   \<and> count_list (read_fasta
         [''>r1'', ''AAAA'', ''>r2'', ''AAAA'', ''>r3'', ''TTTT'', ''>r4'', ''TTTT'', ''>r5'', ''TTTT'',
          ''>r6'', ''CCCC'', ''>r7'', ''CCCC'', ''>r8'', ''GGGG''] 4) ''CCCC'' = 2
   \<and> count_list (read_fasta
         [''>r1'', ''AAAA'', ''>r2'', ''AAAA'', ''>r3'', ''TTTT'', ''>r4'', ''TTTT'', ''>r5'', ''TTTT'',
          ''>r6'', ''CCCC'', ''>r7'', ''CCCC'', ''>r8'', ''GGGG''] 4) ''GGGG'' = 1"
proof -
  let ?file = "[''>r1'', ''AAAA'', ''>r2'', ''AAAA'', ''>r3'', ''TTTT'', ''>r4'', ''TTTT'',
      ''>r5'', ''TTTT'', ''>r6'', ''CCCC'', ''>r7'', ''CCCC'', ''>r8'', ''GGGG'']"
  have out: "dereplication_fulllength ?file 4 2 = [(''TTTT'', 3), (''CCCC'', 2), (''AAAA'', 2)]"
    by code_simp
  have read: "''GGGG'' \<in> set (read_fasta ?file 4)"
    by code_simp
  from dereplication_fulllength_order [of ?file 4 2]
  have iff: "\<And>seq count. (seq, count) \<in> set (dereplication_fulllength ?file 4 2) \<longleftrightarrow>
      seq \<in> set (read_fasta ?file 4) \<and> count = int (count_list (read_fasta ?file 4) seq)
      \<and> count \<ge> 2"
    by blast
  from iff [of "''CCCC''" 2] have c: "count_list (read_fasta ?file 4) ''CCCC'' = 2"
    by (simp add: out)
  from iff [of "''GGGG''" "int (count_list (read_fasta ?file 4) ''GGGG'')"] read
  have "int (count_list (read_fasta ?file 4) ''GGGG'') < 2"
    by (auto simp add: out)
  moreover from read have "count_list (read_fasta ?file 4) ''GGGG'' > 0"
    using count_list_0_iff [of "read_fasta ?file 4" "''GGGG''"] by simp
  ultimately have g: "count_list (read_fasta ?file 4) ''GGGG'' = 1"
    by linarith
  from out c g show ?thesis by simp
qed

section \<open>Properties of the floating-point operations\<close>

lemma bit_length_bounds:
  "0 < n \<Longrightarrow> 2 ^ (bit_length n - 1) \<le> n \<and> n < 2 ^ bit_length n"
proof (induction n rule: bit_length.induct)
  case (1 n)
  show ?case
  proof (cases "n div 2 = 0")
    case True
    with "1.prems" have "n = 1" by (auto simp: div_eq_0_iff)
    then show ?thesis
      by (simp add: bit_length.simps [of "Suc 0"] bit_length.simps [of 0])
  next
    case False
    with "1.IH" "1.prems" have IH: "2 ^ (bit_length (n div 2) - 1) \<le> n div 2"
      "n div 2 < 2 ^ bit_length (n div 2)" by auto
    from False have pos: "bit_length (n div 2) > 0"
      by (simp add: bit_length.simps [of "n div 2"])
    have bl: "bit_length n = Suc (bit_length (n div 2))"
      using "1.prems" by (simp add: bit_length.simps [of n])
    from pos have "(2::nat) ^ (bit_length n - 1) = 2 * 2 ^ (bit_length (n div 2) - 1)"
      by (simp add: bl flip: power_Suc)
    also have "\<dots> \<le> 2 * (n div 2)" using IH(1) by simp
    also have "\<dots> \<le> n" by simp
    finally have lo: "2 ^ (bit_length n - 1) \<le> n" .
    have "n < 2 * (n div 2) + 2" by presburger
    also have "\<dots> \<le> 2 * 2 ^ bit_length (n div 2)" using IH(2) by simp
    finally have "n < 2 ^ bit_length n" by (simp add: bl)
    with lo show ?thesis by simp
  qed
qed

lemma pow2_powi: "pow2 e = 2 powi e"
  by (simp add: pow2_def power_int_def field_simps)

lemma pow2_pos: "0 < pow2 e"
  by (simp add: pow2_powi)

lemma pow2_add: "pow2 (a + b) = pow2 a * pow2 b"
  by (simp add: pow2_powi power_int_add)

lemma pow2_mono: "a \<le> b \<Longrightarrow> pow2 a \<le> pow2 b"
  by (simp add: pow2_powi power_int_increasing)

lemma pow2_strict_mono: "a < b \<Longrightarrow> pow2 a < pow2 b"
  by (simp add: pow2_powi power_int_strict_increasing)

lemma pow2_nat: "pow2 (int n) = 2 ^ n"
  by (simp add: pow2_def)

lemma pow2_le_iff: "pow2 a \<le> pow2 b \<longleftrightarrow> a \<le> b"
  using pow2_mono [of a b] pow2_strict_mono [of b a] by (auto simp: not_le [symmetric])

lemma pow2_less_iff: "pow2 a < pow2 b \<longleftrightarrow> a < b"
  using pow2_le_iff [of b a] by (auto simp: not_le [symmetric])

lemma exponent_bounds:
  assumes "0 < q"
  shows "pow2 (exponent q) \<le> q \<and> q < pow2 (exponent q + 1)"
proof -
  obtain a b where ab: "quotient_of q = (a, b)" by (cases "quotient_of q")
  then have b: "0 < b" and q: "q = of_int a / of_int b"
    using quotient_of_denom_pos [of q a b] quotient_of_div [of q a b] by simp_all
  with assms have a: "0 < a"
    by (simp add: zero_less_divide_iff)
  let ?la = "bit_length (nat a)" and ?lb = "bit_length (nat b)"
  let ?d = "int ?la - int ?lb"
  from a b have la: "2 ^ (?la - 1) \<le> nat a" "nat a < 2 ^ ?la"
    and lb: "2 ^ (?lb - 1) \<le> nat b" "nat b < 2 ^ ?lb"
    using bit_length_bounds [of "nat a"] bit_length_bounds [of "nat b"] by simp_all
  from a la have lapos: "0 < ?la" by (cases "?la") auto
  from b lb have lbpos: "0 < ?lb" by (cases "?lb") auto
  have ra: "pow2 (int ?la - 1) \<le> of_int a" "of_int a < pow2 (int ?la)"
  proof -
    from lapos have "pow2 (int ?la - 1) = 2 ^ (?la - 1)"
      using pow2_nat [of "?la - 1"] by (simp add: of_nat_diff)
    also have "\<dots> = of_nat (2 ^ (?la - 1))" by simp
    also have "\<dots> \<le> of_nat (nat a)" using la(1) by (simp only: of_nat_le_iff)
    finally show "pow2 (int ?la - 1) \<le> of_int a" using a by simp
    have "(of_nat (nat a) :: rat) < of_nat (2 ^ ?la)" using la(2) by (simp only: of_nat_less_iff)
    then show "of_int a < pow2 (int ?la)" using a by (simp add: pow2_nat)
  qed
  have rb: "pow2 (int ?lb - 1) \<le> of_int b" "of_int b < pow2 (int ?lb)"
  proof -
    from lbpos have "pow2 (int ?lb - 1) = 2 ^ (?lb - 1)"
      using pow2_nat [of "?lb - 1"] by (simp add: of_nat_diff)
    also have "\<dots> = of_nat (2 ^ (?lb - 1))" by simp
    also have "\<dots> \<le> of_nat (nat b)" using lb(1) by (simp only: of_nat_le_iff)
    finally show "pow2 (int ?lb - 1) \<le> of_int b" using b by simp
    have "(of_nat (nat b) :: rat) < of_nat (2 ^ ?lb)" using lb(2) by (simp only: of_nat_less_iff)
    then show "of_int b < pow2 (int ?lb)" using b by (simp add: pow2_nat)
  qed
  have bq: "(0::rat) < of_int b" using b by simp
  have lower: "pow2 (?d - 1) \<le> q"
  proof -
    have "pow2 (?d - 1) * of_int b \<le> pow2 (?d - 1) * pow2 (int ?lb)"
      using rb(2) pow2_pos [of "?d - 1"] by (simp add: mult_left_mono less_imp_le)
    also have "\<dots> = pow2 (int ?la - 1)"
      by (simp add: pow2_add [symmetric])
    also have "\<dots> \<le> of_int a" by (rule ra(1))
    finally show ?thesis using bq by (simp add: q pos_le_divide_eq)
  qed
  have upper: "q < pow2 (?d + 1)"
  proof -
    have "of_int a < pow2 (int ?la)" by (rule ra(2))
    also have "\<dots> = pow2 (?d + 1) * pow2 (int ?lb - 1)"
      by (simp add: pow2_add [symmetric])
    also have "\<dots> \<le> pow2 (?d + 1) * of_int b"
      using rb(1) pow2_pos [of "?d + 1"] by (simp add: mult_left_mono less_imp_le)
    finally show ?thesis using bq by (simp add: q pos_divide_less_eq)
  qed
  show ?thesis
  proof (cases "pow2 ?d \<le> q")
    case True
    then have "exponent q = ?d" by (simp add: exponent_def ab)
    with True upper show ?thesis by simp
  next
    case False
    then have "exponent q = ?d - 1" by (simp add: exponent_def ab)
    with False lower show ?thesis by simp
  qed
qed


lemma round_half_even_error: "\<bar>of_int (round_half_even y) - y\<bar> \<le> 1 / 2"
proof -
  have "of_int \<lfloor>y\<rfloor> \<le> y" "y < of_int \<lfloor>y\<rfloor> + 1" by linarith+
  then show ?thesis
    by (auto simp: round_half_even_def Let_def abs_le_iff)
qed

lemma round_half_even_of_int: "round_half_even (of_int n) = n"
  by (simp add: round_half_even_def)

lemma round_half_even_ge: "of_int m \<le> y \<Longrightarrow> m \<le> round_half_even y"
proof -
  assume "of_int m \<le> y"
  then have "m \<le> \<lfloor>y\<rfloor>" by (simp add: le_floor_iff)
  then show ?thesis by (auto simp: round_half_even_def Let_def)
qed

lemma binary64_pos_eq:
  "0 < q \<Longrightarrow>
   binary64 q = of_int (round_half_even (q / pow2 (exponent q - 52))) * pow2 (exponent q - 52)"
  by (simp add: binary64_def Let_def)

lemma binary64_error:
  assumes "0 < q"
  shows "\<bar>binary64 q - q\<bar> \<le> pow2 (exponent q - 53)"
proof -
  let ?e = "exponent q - 52"
  have p: "0 < pow2 ?e" by (rule pow2_pos)
  have "binary64 q - q = (of_int (round_half_even (q / pow2 ?e)) - q / pow2 ?e) * pow2 ?e"
    using p assms by (simp add: binary64_pos_eq algebra_simps)
  then have "\<bar>binary64 q - q\<bar> = \<bar>of_int (round_half_even (q / pow2 ?e)) - q / pow2 ?e\<bar> * pow2 ?e"
    using p by (simp add: abs_mult)
  also have "\<dots> \<le> 1 / 2 * pow2 ?e"
    using round_half_even_error [of "q / pow2 ?e"] p by (intro mult_right_mono) simp_all
  also have "\<dots> = pow2 (exponent q - 53)"
    using pow2_add [of "exponent q - 53" 1] by (simp add: pow2_def)
  finally show ?thesis .
qed

lemma binary64_ge:
  assumes "0 < q"
  shows "pow2 (exponent q) \<le> binary64 q"
proof -
  let ?e = "exponent q - 52"
  have p: "0 < pow2 ?e" by (rule pow2_pos)
  have "pow2 52 * pow2 ?e = pow2 (exponent q)"
    using pow2_add [of 52 ?e] by simp
  also have "\<dots> \<le> q" using exponent_bounds [OF assms] by simp
  finally have "pow2 52 \<le> q / pow2 ?e" using p by (simp add: pos_le_divide_eq)
  moreover have "pow2 52 = of_int (2 ^ 52)" by (simp add: pow2_def)
  ultimately have "2 ^ 52 \<le> round_half_even (q / pow2 ?e)"
    by (intro round_half_even_ge) simp
  then have "(of_int (2 ^ 52) :: rat) \<le> of_int (round_half_even (q / pow2 ?e))"
    by (simp only: of_int_le_iff)
  then have "pow2 52 * pow2 ?e \<le> of_int (round_half_even (q / pow2 ?e)) * pow2 ?e"
    using p by (intro mult_right_mono) (simp_all add: pow2_def)
  then show ?thesis
    using assms pow2_add [of 52 ?e] by (simp add: binary64_pos_eq)
qed

lemma binary64_pos: "0 < q \<Longrightarrow> 0 < binary64 q"
  using binary64_ge [of q] pow2_pos [of "exponent q"] by linarith

lemma binary64_of_nat_exact:
  assumes "n \<le> 2 ^ 53"
  shows "binary64 (of_nat n) = of_nat n"
proof (cases "n = 0")
  case True
  then show ?thesis by (simp add: binary64_def)
next
  case False
  define q :: rat where "q = of_nat n"
  define e where "e = exponent q - 52"
  from False have q: "0 < q" by (simp add: q_def)
  have b: "binary64 q = of_int (round_half_even (q / pow2 e)) * pow2 e"
    using q by (simp add: binary64_pos_eq e_def)
  have "pow2 (exponent q) \<le> q" using exponent_bounds [OF q] by simp
  also have "q \<le> of_nat (2 ^ 53)" unfolding q_def using assms by (simp only: of_nat_le_iff)
  also have "\<dots> = pow2 53" by (simp add: pow2_def)
  finally have le: "e \<le> 1" by (simp add: pow2_le_iff e_def)
  have "binary64 q = q"
  proof (cases "e \<le> 0")
    case True
    then have p: "pow2 e = 1 / 2 ^ nat (- e)"
      by (cases "e = 0") (simp_all add: pow2_def)
    then have "q / pow2 e = of_int (int n * 2 ^ nat (- e))" by (simp add: q_def)
    then have r: "round_half_even (q / pow2 e) = int n * 2 ^ nat (- e)"
      by (simp only: round_half_even_of_int)
    have "binary64 q = of_int (int n * 2 ^ nat (- e)) * pow2 e"
      by (simp only: b r)
    also have "\<dots> = q" by (simp add: p q_def)
    finally show ?thesis .
  next
    case False
    with le have e1: "e = 1" by simp
    then have "exponent q = 53" by (simp add: e_def)
    then have "pow2 53 \<le> q" using exponent_bounds [OF q] by simp
    then have "(of_nat (2 ^ 53) :: rat) \<le> of_nat n" by (simp add: pow2_def q_def)
    then have "2 ^ 53 \<le> n" by (simp only: of_nat_le_iff)
    with assms have n: "n = 2 ^ 53" by simp
    have pe: "pow2 e = 2" by (simp add: e1 pow2_def)
    have qv: "q = of_int (2 ^ 52) * 2" by (simp add: q_def n)
    have "q / pow2 e = of_int (2 ^ 52)" by (simp only: pe qv)
    then have r: "round_half_even (q / pow2 e) = 2 ^ 52"
      by (simp only: round_half_even_of_int)
    have "binary64 q = of_int (2 ^ 52) * pow2 e"
      by (simp only: b r)
    also have "\<dots> = q" by (simp only: pe qv)
    finally show ?thesis .
  qed
  then show ?thesis by (simp add: q_def)
qed

section \<open>Properties of get\_identity\<close>

lemma sum_identical_Inr:
  "\<forall>i \<in> set ixs. i < length a0 \<and> i < length a1 \<Longrightarrow>
   sum_identical (a0 # a1 # more) ixs acc =
     Inr (acc + int (length (filter (\<lambda>i. a0 ! i = a1 ! i) ixs)))"
  by (induction ixs arbitrary: acc) (simp_all add: getitem_def)

lemma sum_identical_IndexError:
  "\<forall>i \<in> set ixs. i < length a0 \<Longrightarrow> \<exists>i \<in> set ixs. \<not> i < length a1 \<Longrightarrow>
   sum_identical (a0 # a1 # more) ixs acc = Inl IndexError"
proof (induction ixs arbitrary: acc)
  case Nil
  then show ?case by simp
next
  case (Cons i ixs)
  show ?case
  proof (cases "i < length a1")
    case True
    with Cons.prems have "\<exists>i \<in> set ixs. \<not> i < length a1" by auto
    with Cons.IH Cons.prems True show ?thesis by (simp add: getitem_def)
  next
    case False
    with Cons.prems show ?thesis by (simp add: getitem_def)
  qed
qed

lemma zip_map_nth:
  "length a0 \<le> length a1 \<Longrightarrow> zip a0 a1 = map (\<lambda>i. (a0 ! i, a1 ! i)) [0..<length a0]"
  by (rule nth_equalityI) simp_all

lemma identical_columns_nth:
  "length a0 \<le> length a1 \<Longrightarrow>
   length (filter (\<lambda>i. a0 ! i = a1 ! i) [0..<length a0]) = identical_columns a0 a1"
  by (simp add: identical_columns_def zip_map_nth filter_map comp_def)

lemma identical_columns_le: "identical_columns a b \<le> length a"
  unfolding identical_columns_def
  by (rule order_trans [OF length_filter_le]) simp

lemma identical_columns_append:
  "length a1 = length b1 \<Longrightarrow>
   identical_columns (a1 @ a2) (b1 @ b2) = identical_columns a1 b1 + identical_columns a2 b2"
  by (simp add: identical_columns_def)

lemma float_of_int_pos: "0 < n \<Longrightarrow> float_of_int n \<noteq> 0"
  using binary64_pos [of "of_int n"] by (simp add: float_of_int_def)

lemma get_identity_cases:
  "get_identity [a0, a1] =
     (if length a1 < length a0 then Inl IndexError
      else if a0 = [] then Inl ZeroDivisionError
      else Inr (round_ndigits
             (binary64 (binary64 (100 * binary64 (of_nat (identical_columns a0 a1)))
                / binary64 (of_nat (length a0)))) 2))"
proof (cases "length a1 < length a0")
  case True
  then have "\<exists>i \<in> set [0..<length a0]. \<not> i < length a1"
    by (intro bexI [of _ "length a1"]) simp_all
  then have "sum_identical [a0, a1] [0..<length a0] 0 = Inl IndexError"
    by (intro sum_identical_IndexError) simp_all
  with True show ?thesis by (simp add: get_identity_def getitem_def)
next
  case False
  then have le: "length a0 \<le> length a1" by simp
  then have "sum_identical [a0, a1] [0..<length a0] 0 =
      Inr (0 + int (length (filter (\<lambda>i. a0 ! i = a1 ! i) [0..<length a0])))"
    by (intro sum_identical_Inr) simp
  then have s: "sum_identical [a0, a1] [0..<length a0] 0 = Inr (int (identical_columns a0 a1))"
    by (simp add: identical_columns_nth [OF le])
  show ?thesis
  proof (cases "a0 = []")
    case True
    then show ?thesis
      by (simp add: get_identity_def getitem_def float_truediv_def float_of_int_def binary64_def)
  next
    case False
    then have "float_of_int (int (length a0)) \<noteq> 0"
      by (intro float_of_int_pos) simp
    with False le s show ?thesis
      by (simp add: get_identity_def getitem_def float_truediv_def float_mul_def)
        (simp add: float_of_int_def)
  qed
qed

lemma get_identity_value:
  assumes "a0 \<noteq> []" "length a0 \<le> length a1" "length a0 < 2 ^ 39"
  shows "get_identity [a0, a1] =
     Inr (round_ndigits
            (binary64 (of_nat (100 * identical_columns a0 a1) / of_nat (length a0))) 2)"
proof -
  let ?k = "identical_columns a0 a1" and ?n = "length a0"
  have "?k \<le> ?n" by (rule identical_columns_le)
  with assms(3) have kb: "?k \<le> 2 ^ 53" and nb: "?n \<le> 2 ^ 53" and hb: "100 * ?k \<le> 2 ^ 53"
    by simp_all
  have "binary64 (100 * binary64 (of_nat ?k)) = binary64 (of_nat (100 * ?k))"
    by (simp add: binary64_of_nat_exact [OF kb])
  also have "\<dots> = of_nat (100 * ?k)" by (rule binary64_of_nat_exact [OF hb])
  finally have "binary64 (binary64 (100 * binary64 (of_nat ?k)) / binary64 (of_nat ?n))
      = binary64 (of_nat (100 * ?k) / of_nat ?n)"
    by (simp only: binary64_of_nat_exact [OF nb])
  with assms(1,2) show ?thesis
    by (simp add: get_identity_cases)
qed

lemma get_identity_Nil_first: "get_identity ([] # more) = Inl ZeroDivisionError"
  by (simp add: get_identity_def getitem_def float_truediv_def float_of_int_def binary64_def)

lemma get_identity_Inr_nonempty:
  assumes "get_identity alignment_list = Inr v"
  shows "\<exists>a0 more. alignment_list = a0 # more \<and> a0 \<noteq> []"
proof (cases alignment_list)
  case Nil
  with assms show ?thesis by (simp add: get_identity_def getitem_def)
next
  case (Cons a0 more)
  with assms get_identity_Nil_first [of more] show ?thesis
    by (cases "a0 = []") auto
qed

lemma binary64_error_small:
  assumes "0 < q" "q \<le> 100"
  shows "\<bar>binary64 q - q\<bar> \<le> 1 / 2 ^ 47"
proof -
  have "pow2 (exponent q) \<le> q" using exponent_bounds [OF assms(1)] by simp
  also have "q < pow2 7" using assms(2) by (simp add: pow2_def)
  finally have "exponent q < 7" by (simp add: pow2_less_iff)
  then have "pow2 (exponent q - 53) \<le> pow2 (- 47)" by (intro pow2_mono) simp
  also have "pow2 (- 47) = 1 / 2 ^ 47" by (simp add: pow2_def)
  finally show ?thesis using binary64_error [OF assms(1)] by linarith
qed

lemma two_decimals_nearest:
  fixes x :: rat and k n :: nat and d :: int
  assumes n: "0 < n" "n < 2 ^ 39"
    and x: "\<bar>x - of_nat (100 * k) / of_nat n\<bar> \<le> 1 / 2 ^ 47"
    and d: "\<bar>of_int d - x * 100\<bar> \<le> 1 / 2"
  shows "\<bar>(of_int d :: rat) / 100 - of_nat (100 * k) / of_nat n\<bar> \<le> 1 / 200"
proof (rule ccontr)
  define N :: rat where "N = of_nat n"
  define y :: rat where "y = of_nat (10000 * k) / N"
  define z :: int where "z = 2 * d * int n - 20000 * int k"
  have N: "0 < N" using n by (simp add: N_def)
  have y: "y = 100 * (of_nat (100 * k) / of_nat n)" by (simp add: y_def N_def)
  assume "\<not> ?thesis"
  then have far: "1 / 2 < \<bar>of_int d - y\<bar>" unfolding y by (simp add: abs_if split: if_splits)
  have zy: "of_int z = (of_int d - y) * (2 * N)"
    using N by (simp add: z_def y_def N_def field_simps)
  then have "\<bar>of_int z :: rat\<bar> = \<bar>of_int d - y\<bar> * (2 * N)"
    using N by (simp add: abs_mult)
  moreover have "1 / 2 * (2 * N) < \<bar>of_int d - y\<bar> * (2 * N)"
    using far N by (intro mult_strict_right_mono) simp_all
  ultimately have "N < \<bar>of_int z :: rat\<bar>"
    by simp
  then have "(of_int (int n) :: rat) < of_int \<bar>z\<bar>" by (simp add: N_def)
  then have "int n < \<bar>z\<bar>" by (simp only: of_int_less_iff)
  then have "int n + 1 \<le> \<bar>z\<bar>" by simp
  then have "(of_int (int n + 1) :: rat) \<le> of_int \<bar>z\<bar>" by (simp only: of_int_le_iff)
  then have "N + 1 \<le> \<bar>of_int d - y\<bar> * (2 * N)"
    using N by (simp add: N_def zy abs_mult)
  then have lower: "1 / 2 + 1 / (2 * N) \<le> \<bar>of_int d - y\<bar>"
    using N by (simp add: field_simps)
  have "\<bar>of_int d - y\<bar> \<le> \<bar>of_int d - x * 100\<bar> + 100 * \<bar>x - of_nat (100 * k) / of_nat n\<bar>"
    unfolding y by (simp add: abs_if split: if_splits)
  also have "\<dots> \<le> 1 / 2 + 100 * (1 / 2 ^ 47)"
    using x d by (intro add_mono mult_left_mono) simp_all
  finally have "1 / (2 * N) \<le> 100 / 2 ^ 47" using lower by simp
  then have "2 ^ 47 \<le> 200 * N" using N by (simp add: field_simps)
  moreover have "N < 2 ^ 39"
  proof -
    have "(of_nat n :: rat) < of_nat (2 ^ 39)" using n(2) by (simp only: of_nat_less_iff)
    then show ?thesis by (simp add: N_def)
  qed
  ultimately show False by simp
qed

lemma identity_rate_nearest:
  fixes k n :: nat
  assumes n: "0 < n" "n < 2 ^ 39" and k: "k \<le> n"
  shows "\<exists>d :: int.
     round_ndigits (binary64 (binary64 (100 * binary64 (of_nat k)) / binary64 (of_nat n))) 2
       = binary64 (of_int d / 100)
     \<and> \<bar>(of_int d :: rat) / 100 - of_nat (100 * k) / of_nat n\<bar> \<le> 1 / 200"
proof -
  define q :: rat where "q = of_nat (100 * k) / of_nat n"
  define x where "x = binary64 q"
  define d where "d = round_half_even (x * 100)"
  have kb: "k \<le> 2 ^ 53" and nb: "n \<le> 2 ^ 53" and hb: "100 * k \<le> 2 ^ 53"
    using n k by simp_all
  have "binary64 (100 * binary64 (of_nat k)) = binary64 (of_nat (100 * k))"
    by (simp add: binary64_of_nat_exact [OF kb])
  also have "\<dots> = of_nat (100 * k)" by (rule binary64_of_nat_exact [OF hb])
  finally have "binary64 (binary64 (100 * binary64 (of_nat k)) / binary64 (of_nat n)) = x"
    by (simp only: binary64_of_nat_exact [OF nb] x_def q_def)
  then have r: "round_ndigits (binary64 (binary64 (100 * binary64 (of_nat k))
      / binary64 (of_nat n))) 2 = binary64 (of_int d / 100)"
    by (simp add: round_ndigits_def d_def)
  have q100: "q \<le> 100"
  proof -
    have "(of_nat (100 * k) :: rat) \<le> of_nat (100 * n)" using k by (simp only: of_nat_le_iff)
    then show ?thesis using n by (simp add: q_def pos_divide_le_eq)
  qed
  have xq: "\<bar>x - q\<bar> \<le> 1 / 2 ^ 47"
  proof (cases "k = 0")
    case True
    then show ?thesis by (simp add: x_def q_def binary64_def)
  next
    case False
    with n have "0 < q" by (simp add: q_def)
    from binary64_error_small [OF this q100] show ?thesis by (simp add: x_def)
  qed
  have "\<bar>of_int d - x * 100\<bar> \<le> 1 / 2"
    unfolding d_def by (rule round_half_even_error)
  from two_decimals_nearest [OF n xq [unfolded q_def] this] r show ?thesis
    by blast
qed

lemma identical_columns_take:
  "identical_columns a0 (take (length a0) a1) = identical_columns a0 a1"
proof -
  have "zip a0 (take (length a0) a1) = take (length a0) (zip a0 a1)"
    by (simp add: take_zip)
  then show ?thesis by (simp add: identical_columns_def)
qed

text \<open>
  Claim C3. For two aligned strings of the same positive length, \<^verbatim>\<open>get_identity\<close> returns
  the float quotient of 100 times the number of columns holding the same character by the
  length, rounded by \<^verbatim>\<open>round(..., 2)\<close>. For a length below \<open>2 ^ 39\<close> the result is the
  float nearest to a number of two decimals that lies within \<open>1 / 200\<close> of the exact
  quotient. Every column counts one when its two characters are equal and nothing
  otherwise: a column of two gap characters counts as identical, a gap against another
  character does not.
\<close>

theorem get_identity_rate:
  "(length a = length b \<and> a \<noteq> [] \<longrightarrow>
      get_identity [a, b] =
        Inr (round_ndigits
               (binary64 (binary64 (100 * binary64 (of_nat (identical_columns a b)))
                  / binary64 (of_nat (length a)))) 2))
   \<and> (length a = length b \<and> a \<noteq> [] \<and> length a < 2 ^ 39 \<longrightarrow>
      (\<exists>d :: int. get_identity [a, b] = Inr (binary64 (of_int d / 100))
         \<and> \<bar>of_int d / 100 - 100 * of_nat (identical_columns a b) / of_nat (length a)\<bar>
             \<le> (1 :: rat) / 200))
   \<and> (length a1 = length b1 \<longrightarrow>
      identical_columns (a1 @ x # a2) (b1 @ y # b2) =
        identical_columns a1 b1 + (if x = y then 1 else 0) + identical_columns a2 b2)
   \<and> identical_columns [CHR ''-''] [CHR ''-''] = 1
   \<and> (c \<noteq> CHR ''-'' \<longrightarrow>
        identical_columns [c] [CHR ''-''] = 0 \<and> identical_columns [CHR ''-''] [c] = 0)"
proof (intro conjI impI)
  assume h: "length a = length b \<and> a \<noteq> []"
  then show "get_identity [a, b] =
      Inr (round_ndigits
             (binary64 (binary64 (100 * binary64 (of_nat (identical_columns a b)))
                / binary64 (of_nat (length a)))) 2)"
    by (simp add: get_identity_cases)
next
  assume h: "length a = length b \<and> a \<noteq> [] \<and> length a < 2 ^ 39"
  then have n: "0 < length a" "length a < 2 ^ 39" by auto
  from identity_rate_nearest [OF n identical_columns_le [of a b]]
  obtain d :: int where d:
    "round_ndigits (binary64 (binary64 (100 * binary64 (of_nat (identical_columns a b)))
        / binary64 (of_nat (length a)))) 2 = binary64 (of_int d / 100)"
    "\<bar>(of_int d :: rat) / 100 - of_nat (100 * identical_columns a b) / of_nat (length a)\<bar> \<le> 1 / 200"
    by blast
  from h d(1) have "get_identity [a, b] = Inr (binary64 (of_int d / 100))"
    by (simp add: get_identity_cases)
  moreover from d(2)
  have "\<bar>of_int d / 100 - 100 * of_nat (identical_columns a b) / of_nat (length a)\<bar>
      \<le> (1 :: rat) / 200"
    by simp
  ultimately show "\<exists>d :: int. get_identity [a, b] = Inr (binary64 (of_int d / 100))
         \<and> \<bar>of_int d / 100 - 100 * of_nat (identical_columns a b) / of_nat (length a)\<bar>
             \<le> (1 :: rat) / 200"
    by blast
next
  assume "length a1 = length b1"
  then show "identical_columns (a1 @ x # a2) (b1 @ y # b2) =
        identical_columns a1 b1 + (if x = y then 1 else 0) + identical_columns a2 b2"
    by (simp add: identical_columns_def)
next
  show "identical_columns [CHR ''-''] [CHR ''-''] = 1"
    by (simp add: identical_columns_def)
next
  assume "c \<noteq> CHR ''-''"
  then show "identical_columns [c] [CHR ''-''] = 0"
    by (simp add: identical_columns_def)
next
  assume "c \<noteq> CHR ''-''"
  then show "identical_columns [CHR ''-''] [c] = 0"
    by (auto simp add: identical_columns_def)
qed

theorem get_identity_rate_witness:
  "length ''A-CG'' = length ''A-CT'' \<and> ''A-CG'' \<noteq> [] \<and> length ''A-CG'' < (2 :: nat) ^ 39
   \<and> identical_columns ''A-CG'' ''A-CT'' = 3
   \<and> get_identity [''A-CG'', ''A-CT''] = Inr 75
   \<and> CHR ''G'' \<noteq> CHR ''-'' \<and> identical_columns ''G'' ''-'' = 0"
proof -
  have h: "length ''A-CG'' = length ''A-CT'' \<and> ''A-CG'' \<noteq> []" by simp
  have c: "identical_columns ''A-CG'' ''A-CT'' = 3" by code_simp
  have e: "round_ndigits (binary64 (binary64 (100 * binary64 (of_nat 3)) / binary64 (of_nat 4))) 2 = 75"
    by code_simp
  from get_identity_rate [of "''A-CG''" "''A-CT''" "[]" "[]" "CHR ''G''" "[]" "CHR ''-''" "[]" "CHR ''G''"]
  have "get_identity [''A-CG'', ''A-CT''] =
      Inr (round_ndigits (binary64 (binary64 (100 * binary64 (of_nat (identical_columns ''A-CG'' ''A-CT'')))
        / binary64 (of_nat (length ''A-CG'')))) 2)"
    and "identical_columns ''G'' ''-'' = 0"
    using h by simp_all
  then show ?thesis using e by (simp add: c)
qed

text \<open>
  Claim C6 says that \<^verbatim>\<open>get_identity\<close> fails on strings of unequal length. With a first
  string shorter than the second one it returns a value.
\<close>

theorem get_identity_length_mismatch_counterexample:
  "get_identity [''A'', ''AA''] = Inr 100"
  by code_simp

text \<open>
  Claim C6, amended. \<^verbatim>\<open>get_identity\<close> does not compare the lengths. When the first
  string is longer than the second, reading the second out of range raises
  \<^verbatim>\<open>IndexError\<close>; when the first string is not empty and shorter than the second, the
  call returns the identity of the first string and the prefix of the second of the
  same length; when the first string is empty the division raises.
\<close>

theorem get_identity_unequal_length:
  "(length a1 < length a0 \<longrightarrow> get_identity [a0, a1] = Inl IndexError)
   \<and> (a0 \<noteq> [] \<and> length a0 < length a1 \<longrightarrow>
        (\<exists>v. get_identity [a0, a1] = Inr v)
        \<and> get_identity [a0, a1] = get_identity [a0, take (length a0) a1])
   \<and> (a0 = [] \<longrightarrow> get_identity [a0, a1] = Inl ZeroDivisionError)"
  by (simp add: get_identity_cases identical_columns_take)

theorem get_identity_unequal_length_witness:
  "length ''A'' < length ''AC'' \<and> get_identity [''AC'', ''A''] = Inl IndexError
   \<and> ''AC'' \<noteq> [] \<and> length ''AC'' < length ''ACGT''
   \<and> get_identity [''AC'', ''ACGT''] = get_identity [''AC'', ''AC'']
   \<and> get_identity [[], ''A''] = Inl ZeroDivisionError"
  using get_identity_unequal_length [of "''A''" "''AC''"]
    get_identity_unequal_length [of "''ACGT''" "''AC''"]
    get_identity_unequal_length [of "''A''" "[]"]
  by simp

text \<open>
  Claim C9. When the first element of \<^verbatim>\<open>alignment_list\<close> is the empty string, the call
  raises \<^verbatim>\<open>ZeroDivisionError\<close>; whenever the call returns a value, the first element is
  a non-empty string.
\<close>

theorem get_identity_empty:
  "get_identity ([] # more) = Inl ZeroDivisionError
   \<and> (get_identity alignment_list = Inr v \<longrightarrow>
        (\<exists>a0 rest. alignment_list = a0 # rest \<and> a0 \<noteq> []))"
  using get_identity_Inr_nonempty [of alignment_list v]
  by (simp add: get_identity_Nil_first)

theorem get_identity_empty_witness:
  "get_identity [''A'', ''A''] = Inr 100
   \<and> (\<exists>a0 rest. [''A'', ''A''] = a0 # rest \<and> a0 \<noteq> [])
   \<and> get_identity [[], []] = Inl ZeroDivisionError"
proof -
  have v: "get_identity [''A'', ''A''] = Inr 100" by code_simp
  from get_identity_empty [of "[[]]" "[''A'', ''A'']" 100] v show ?thesis by simp
qed

section \<open>Properties of abundance\_greedy\_clustering\<close>

lemma scan_OTU_False_iff:
  "scan_OTU ga r list_OTU = Inr False \<longleftrightarrow>
     (\<exists>before j after v. list_OTU = before @ j # after
        \<and> (\<forall>o' \<in> set before. \<exists>w. identity_of ga r o' = Inr w \<and> w < 97)
        \<and> identity_of ga r j = Inr v \<and> v \<ge> 97)"
proof (induction list_OTU)
  case Nil
  show ?case by simp
next
  case (Cons x xs)
  show ?case
  proof (cases "identity_of ga r x")
    case (Inl e)
    then show ?thesis
      by (auto simp: Cons_eq_append_conv)
  next
    case (Inr w)
    show ?thesis
    proof (cases "w \<ge> 97")
      case True
      with Inr have "scan_OTU ga r (x # xs) = Inr False" by simp
      moreover from True Inr have "\<exists>before j after v. x # xs = before @ j # after
        \<and> (\<forall>o' \<in> set before. \<exists>w. identity_of ga r o' = Inr w \<and> w < 97)
        \<and> identity_of ga r j = Inr v \<and> v \<ge> 97"
        by (intro exI [of _ "[]"] exI [of _ x] exI [of _ xs] exI [of _ w]) simp
      ultimately show ?thesis by simp
    next
      case False
      with Inr have "scan_OTU ga r (x # xs) = scan_OTU ga r xs" by simp
      moreover have "(\<exists>before j after v. x # xs = before @ j # after
        \<and> (\<forall>o' \<in> set before. \<exists>w. identity_of ga r o' = Inr w \<and> w < 97)
        \<and> identity_of ga r j = Inr v \<and> v \<ge> 97) \<longleftrightarrow>
        (\<exists>before j after v. xs = before @ j # after
        \<and> (\<forall>o' \<in> set before. \<exists>w. identity_of ga r o' = Inr w \<and> w < 97)
        \<and> identity_of ga r j = Inr v \<and> v \<ge> 97)" (is "?L \<longleftrightarrow> ?R")
      proof
        assume ?L
        then obtain before j after v where *: "x # xs = before @ j # after"
          "\<forall>o' \<in> set before. \<exists>w. identity_of ga r o' = Inr w \<and> w < 97"
          "identity_of ga r j = Inr v" "v \<ge> 97" by blast
        show ?R
        proof (cases before)
          case Nil
          with * Inr False show ?thesis by simp
        next
          case (Cons b bs)
          with * have "xs = bs @ j # after" "\<forall>o' \<in> set bs. \<exists>w. identity_of ga r o' = Inr w \<and> w < 97"
            by simp_all
          with * show ?thesis by blast
        qed
      next
        assume ?R
        then obtain before j after v where *: "xs = before @ j # after"
          "\<forall>o' \<in> set before. \<exists>w. identity_of ga r o' = Inr w \<and> w < 97"
          "identity_of ga r j = Inr v" "v \<ge> 97" by blast
        from * have "x # xs = (x # before) @ j # after" by simp
        moreover from * Inr False
        have "\<forall>o' \<in> set (x # before). \<exists>w. identity_of ga r o' = Inr w \<and> w < 97" by simp
        ultimately show ?L using * by blast
      qed
      ultimately show ?thesis using Cons.IH by simp
    qed
  qed
qed

lemma scan_OTU_True_iff:
  "scan_OTU ga r list_OTU = Inr True \<longleftrightarrow>
     (\<forall>o' \<in> set list_OTU. \<exists>w. identity_of ga r o' = Inr w \<and> w < 97)"
  by (induction list_OTU) (auto split: sum.splits)

lemma clustering_loop_append:
  "clustering_loop ga (pre @ post) list_OTU =
     (case clustering_loop ga pre list_OTU of
        Inl e \<Rightarrow> Inl e
      | Inr otus \<Rightarrow> clustering_loop ga post otus)"
  by (induction pre arbitrary: list_OTU) (auto split: sum.splits)

lemma clustering_loop_prefix:
  "clustering_loop ga recs list_OTU = Inr otus \<Longrightarrow> \<exists>more. otus = list_OTU @ more \<and> set more \<subseteq> set recs"
proof (induction recs arbitrary: list_OTU)
  case Nil
  then show ?case by simp
next
  case (Cons i recs)
  from Cons.prems obtain u where u: "scan_OTU ga i list_OTU = Inr u"
    and rest: "clustering_loop ga recs (if u then list_OTU @ [i] else list_OTU) = Inr otus"
    by (auto split: sum.splits)
  from Cons.IH [OF rest] obtain more
    where "otus = (if u then list_OTU @ [i] else list_OTU) @ more" "set more \<subseteq> set recs"
    by blast
  then show ?case
    by (cases u) auto
qed

lemma scan_OTU_total:
  "(\<forall>j \<in> set list_OTU. \<exists>v. identity_of ga i j = Inr v) \<Longrightarrow> \<exists>u. scan_OTU ga i list_OTU = Inr u"
  by (induction list_OTU) auto

lemma clustering_loop_total:
  "(\<forall>i \<in> set recs. \<forall>j \<in> set list_OTU \<union> set recs. \<exists>v. identity_of ga i j = Inr v) \<Longrightarrow>
   \<exists>otus. clustering_loop ga recs list_OTU = Inr otus"
proof (induction recs arbitrary: list_OTU)
  case Nil
  show ?case by simp
next
  case (Cons i recs)
  from Cons.prems have "\<forall>j \<in> set list_OTU. \<exists>v. identity_of ga i j = Inr v" by simp
  from scan_OTU_total [OF this] obtain u where u: "scan_OTU ga i list_OTU = Inr u" ..
  have "\<exists>otus. clustering_loop ga recs (if u then list_OTU @ [i] else list_OTU) = Inr otus"
    by (rule Cons.IH) (use Cons.prems in auto)
  with u show ?case by simp
qed

lemma clustering_loop_step_result:
  assumes "clustering_loop ga (pre @ r # post) seed = Inr res"
  shows "\<exists>otus unique more.
           clustering_loop ga pre seed = Inr otus
         \<and> set otus \<subseteq> set seed \<union> set pre
         \<and> scan_OTU ga r otus = Inr unique
         \<and> set more \<subseteq> set post
         \<and> res = (if unique then otus @ r # more else otus @ more)"
proof -
  from assms obtain otus where o: "clustering_loop ga pre seed = Inr otus"
    and rest: "clustering_loop ga (r # post) otus = Inr res"
    by (auto simp: clustering_loop_append split: sum.splits)
  from rest obtain unique where u: "scan_OTU ga r otus = Inr unique"
    and post: "clustering_loop ga post (if unique then otus @ [r] else otus) = Inr res"
    by (auto split: sum.splits)
  from clustering_loop_prefix [OF post] obtain more
    where m: "res = (if unique then otus @ [r] else otus) @ more" "set more \<subseteq> set post"
    by blast
  from clustering_loop_prefix [OF o] have "set otus \<subseteq> set seed \<union> set pre" by auto
  with o u m show ?thesis by (intro exI [of _ otus] exI [of _ unique] exI [of _ more]) auto
qed

lemma identity_of_pad_align:
  assumes "fst i \<noteq> [] \<or> fst j \<noteq> []"
  shows "\<exists>v. identity_of pad_align i j = Inr v"
proof -
  let ?a = "fst i @ replicate (length (fst j) - length (fst i)) CHR ''-''"
  let ?b = "fst j @ replicate (length (fst i) - length (fst j)) CHR ''-''"
  have "length ?a = length ?b" by simp
  moreover from assms have "?a \<noteq> []" by auto
  ultimately have "\<exists>v. get_identity [?a, ?b] = Inr v"
    by (simp add: get_identity_cases)
  then show ?thesis by (simp add: identity_of_def pad_align_def)
qed

text \<open>
  Claim C1. Every record \<open>r\<close> after the first is handled in the order of the stream.
  Whenever the clustering returns a list \<open>res\<close>, the records before \<open>r\<close> have given a list
  \<open>otus\<close> of accepted OTUs, all of them records before \<open>r\<close>, the scan of \<open>otus\<close> for \<open>r\<close> has
  given a value \<open>unique\<close>, and \<open>res\<close> is \<open>otus\<close>, then \<open>r\<close> itself with its own count when
  \<open>unique\<close> holds and nothing when it does not, then OTUs taken from the records after \<open>r\<close>:
  \<open>r\<close> is in the result exactly when \<open>unique\<close> holds. \<open>unique\<close> holds exactly when every OTU of
  \<open>otus\<close> has an identity below 97 with \<open>r\<close>; it fails exactly when an OTU of \<open>otus\<close> has an
  identity of at least 97 and every OTU before that one an identity below 97: the OTUs
  after the first match are never aligned, whatever their alignment would give. The
  clustering returns whenever every alignment of a later record gives an identity. The
  same step is stated as an equation of the loop, and the two values of the scan are
  characterised for every list of OTUs.
\<close>

theorem greedy_first_match:
  "(dereplication_fulllength amplicon_file minseqlen mincount = first # pre @ r # post \<longrightarrow>
      abundance_greedy_clustering ga amplicon_file minseqlen mincount chunk_size kmer_size =
        (case clustering_loop ga pre [first] of
           Inl e \<Rightarrow> Inl e
         | Inr otus \<Rightarrow>
             (case scan_OTU ga r otus of
                Inl e \<Rightarrow> Inl e
              | Inr unique \<Rightarrow> clustering_loop ga post (if unique then otus @ [r] else otus)))
      \<and> (\<forall>res.
            abundance_greedy_clustering ga amplicon_file minseqlen mincount chunk_size kmer_size
              = Inr res \<longrightarrow>
            (\<exists>otus unique more.
                clustering_loop ga pre [first] = Inr otus
              \<and> set otus \<subseteq> set (first # pre)
              \<and> scan_OTU ga r otus = Inr unique
              \<and> set more \<subseteq> set post
              \<and> res = (if unique then otus @ r # more else otus @ more)
              \<and> (r \<in> set res \<longleftrightarrow> unique)
              \<and> (unique \<longleftrightarrow>
                   (\<forall>o' \<in> set otus. \<exists>w. identity_of ga r o' = Inr w \<and> w < 97))
              \<and> (\<not> unique \<longleftrightarrow>
                   (\<exists>before j after v. otus = before @ j # after
                      \<and> (\<forall>o' \<in> set before. \<exists>w. identity_of ga r o' = Inr w \<and> w < 97)
                      \<and> identity_of ga r j = Inr v \<and> v \<ge> 97))))
      \<and> ((\<forall>i \<in> set (pre @ r # post). \<forall>j \<in> set (first # pre @ r # post).
              \<exists>v. identity_of ga i j = Inr v) \<longrightarrow>
           (\<exists>res. abundance_greedy_clustering ga amplicon_file minseqlen mincount chunk_size
              kmer_size = Inr res)))
   \<and> (scan_OTU ga r list_OTU = Inr False \<longleftrightarrow>
        (\<exists>before j after v. list_OTU = before @ j # after
           \<and> (\<forall>o' \<in> set before. \<exists>w. identity_of ga r o' = Inr w \<and> w < 97)
           \<and> identity_of ga r j = Inr v \<and> v \<ge> 97))
   \<and> (scan_OTU ga r list_OTU = Inr True \<longleftrightarrow>
        (\<forall>o' \<in> set list_OTU. \<exists>w. identity_of ga r o' = Inr w \<and> w < 97))"
proof (intro conjI impI allI)
  assume d: "dereplication_fulllength amplicon_file minseqlen mincount = first # pre @ r # post"
  let ?agc = "abundance_greedy_clustering ga amplicon_file minseqlen mincount chunk_size kmer_size"
  from d have eq: "?agc = clustering_loop ga (pre @ r # post) [first]"
    by (simp add: abundance_greedy_clustering_def)
  then show "?agc =
        (case clustering_loop ga pre [first] of
           Inl e \<Rightarrow> Inl e
         | Inr otus \<Rightarrow>
             (case scan_OTU ga r otus of
                Inl e \<Rightarrow> Inl e
              | Inr unique \<Rightarrow> clustering_loop ga post (if unique then otus @ [r] else otus)))"
    by (simp add: clustering_loop_append split: sum.splits)
  from distinct_dereplication_fulllength [of amplicon_file minseqlen mincount] d
  have dist: "distinct (first # pre @ r # post)" by simp
  {
    fix res
    assume "?agc = Inr res"
    with eq have "clustering_loop ga (pre @ r # post) [first] = Inr res" by simp
    from clustering_loop_step_result [OF this] obtain otus unique more where *:
      "clustering_loop ga pre [first] = Inr otus"
      "set otus \<subseteq> set [first] \<union> set pre"
      "scan_OTU ga r otus = Inr unique"
      "set more \<subseteq> set post"
      "res = (if unique then otus @ r # more else otus @ more)"
      by blast
    from dist *(2,4) have notin: "r \<notin> set otus" "r \<notin> set more" by auto
    with *(5) have mem: "r \<in> set res \<longleftrightarrow> unique" by auto
    from *(3) have t: "unique \<longleftrightarrow>
        (\<forall>o' \<in> set otus. \<exists>w. identity_of ga r o' = Inr w \<and> w < 97)"
      using scan_OTU_True_iff [of ga r otus] by (cases unique) auto
    from *(3) have f: "\<not> unique \<longleftrightarrow>
        (\<exists>before j after v. otus = before @ j # after
           \<and> (\<forall>o' \<in> set before. \<exists>w. identity_of ga r o' = Inr w \<and> w < 97)
           \<and> identity_of ga r j = Inr v \<and> v \<ge> 97)"
      using scan_OTU_False_iff [of ga r otus] by (cases unique) auto
    from *(2) have sub: "set otus \<subseteq> set (first # pre)" by auto
    show "\<exists>otus unique more.
                clustering_loop ga pre [first] = Inr otus
              \<and> set otus \<subseteq> set (first # pre)
              \<and> scan_OTU ga r otus = Inr unique
              \<and> set more \<subseteq> set post
              \<and> res = (if unique then otus @ r # more else otus @ more)
              \<and> (r \<in> set res \<longleftrightarrow> unique)
              \<and> (unique \<longleftrightarrow>
                   (\<forall>o' \<in> set otus. \<exists>w. identity_of ga r o' = Inr w \<and> w < 97))
              \<and> (\<not> unique \<longleftrightarrow>
                   (\<exists>before j after v. otus = before @ j # after
                      \<and> (\<forall>o' \<in> set before. \<exists>w. identity_of ga r o' = Inr w \<and> w < 97)
                      \<and> identity_of ga r j = Inr v \<and> v \<ge> 97))"
      using *(1,3,4,5) sub mem t f
      by (intro exI [of _ otus] exI [of _ unique] exI [of _ more] conjI)
  }
  {
    assume "\<forall>i \<in> set (pre @ r # post). \<forall>j \<in> set (first # pre @ r # post).
              \<exists>v. identity_of ga i j = Inr v"
    then have "\<exists>res. clustering_loop ga (pre @ r # post) [first] = Inr res"
      by (intro clustering_loop_total) simp
    with eq show "\<exists>res. ?agc = Inr res" by simp
  }
next
  show "scan_OTU ga r list_OTU = Inr False \<longleftrightarrow>
        (\<exists>before j after v. list_OTU = before @ j # after
           \<and> (\<forall>o' \<in> set before. \<exists>w. identity_of ga r o' = Inr w \<and> w < 97)
           \<and> identity_of ga r j = Inr v \<and> v \<ge> 97)"
    by (rule scan_OTU_False_iff)
next
  show "scan_OTU ga r list_OTU = Inr True \<longleftrightarrow>
        (\<forall>o' \<in> set list_OTU. \<exists>w. identity_of ga r o' = Inr w \<and> w < 97)"
    by (rule scan_OTU_True_iff)
qed

theorem greedy_first_match_witness:
  "dereplication_fulllength
     [''>1'', replicate 40 CHR ''A'', ''>2'', replicate 40 CHR ''A'', ''>3'', replicate 40 CHR ''A'',
      ''>4'', replicate 40 CHR ''T'', ''>5'', replicate 40 CHR ''T'',
      ''>6'', replicate 39 CHR ''A'' @ ''C'', ''>7'', replicate 39 CHR ''A'' @ ''C''] 40 2
     = (replicate 40 CHR ''A'', 3) # [(replicate 40 CHR ''T'', 2)]
         @ (replicate 39 CHR ''A'' @ ''C'', 2) # []
   \<and> identity_of
       (\<lambda>a b. if b = replicate 40 CHR ''T'' \<and> a = replicate 39 CHR ''A'' @ ''C''
              then Inl AlignmentError else pad_align a b)
       (replicate 39 CHR ''A'' @ ''C'', 2) (replicate 40 CHR ''A'', 3) = Inr (195 / 2)
   \<and> scan_OTU
       (\<lambda>a b. if b = replicate 40 CHR ''T'' \<and> a = replicate 39 CHR ''A'' @ ''C''
              then Inl AlignmentError else pad_align a b)
       (replicate 39 CHR ''A'' @ ''C'', 2)
       [(replicate 40 CHR ''A'', 3), (replicate 40 CHR ''T'', 2)] = Inr False
   \<and> scan_OTU
       (\<lambda>a b. if b = replicate 40 CHR ''T'' \<and> a = replicate 39 CHR ''A'' @ ''C''
              then Inl AlignmentError else pad_align a b)
       (replicate 40 CHR ''T'', 2) [(replicate 40 CHR ''A'', 3)] = Inr True
   \<and> abundance_greedy_clustering
       (\<lambda>a b. if b = replicate 40 CHR ''T'' \<and> a = replicate 39 CHR ''A'' @ ''C''
              then Inl AlignmentError else pad_align a b)
       [''>1'', replicate 40 CHR ''A'', ''>2'', replicate 40 CHR ''A'', ''>3'', replicate 40 CHR ''A'',
        ''>4'', replicate 40 CHR ''T'', ''>5'', replicate 40 CHR ''T'',
        ''>6'', replicate 39 CHR ''A'' @ ''C'', ''>7'', replicate 39 CHR ''A'' @ ''C''] 40 2 50 22
     = Inr [(replicate 40 CHR ''A'', 3), (replicate 40 CHR ''T'', 2)]
   \<and> (replicate 39 CHR ''A'' @ ''C'', 2)
       \<notin> set [(replicate 40 CHR ''A'', 3 :: int), (replicate 40 CHR ''T'', 2)]
   \<and> dereplication_fulllength
       [''>r1'', ''AAAA'', ''>r2'', ''AAAA'', ''>r3'', ''TTTT'', ''>r4'', ''TTTT'', ''>r5'', ''TTTT'',
        ''>r6'', ''CCCC'', ''>r7'', ''CCCC''] 4 2
     = (''TTTT'', 3) # [(''CCCC'', 2)] @ (''AAAA'', 2) # []
   \<and> abundance_greedy_clustering pad_align
       [''>r1'', ''AAAA'', ''>r2'', ''AAAA'', ''>r3'', ''TTTT'', ''>r4'', ''TTTT'', ''>r5'', ''TTTT'',
        ''>r6'', ''CCCC'', ''>r7'', ''CCCC''] 4 2 50 22
     = Inr [(''TTTT'', 3), (''CCCC'', 2), (''AAAA'', 2)]"
proof -
  let ?ga = "\<lambda>a b. if b = replicate 40 CHR ''T'' \<and> a = replicate 39 CHR ''A'' @ ''C''
            then Inl AlignmentError else pad_align a b"
  let ?a = "replicate 40 CHR ''A''" and ?c = "replicate 39 CHR ''A'' @ ''C''"
    and ?t = "replicate 40 CHR ''T''"
  let ?s1 = "(?a, 3 :: int)" and ?s2 = "(?c, 2 :: int)" and ?s3 = "(?t, 2 :: int)"
  let ?file = "[''>1'', ?a, ''>2'', ?a, ''>3'', ?a, ''>4'', ?t, ''>5'', ?t, ''>6'', ?c, ''>7'', ?c]"
  have d: "dereplication_fulllength ?file 40 2 = ?s1 # [?s3] @ ?s2 # []" by code_simp
  have al1: "?ga ?c ?a = Inr (?c, ?a)" by code_simp
  have al2: "?ga ?t ?a = Inr (?t, ?a)" by code_simp
  have len: "?c \<noteq> []" "length ?c \<le> length ?a" "length ?c < 2 ^ 39"
    "?t \<noteq> []" "length ?t \<le> length ?a" "length ?t < 2 ^ 39"
    by simp_all
  have k: "identical_columns ?c ?a = 39" "identical_columns ?t ?a = 0" "length ?c = 40"
    "length ?t = 40"
    by code_simp+
  have b1: "binary64 (195 / 2) = 195 / 2" by code_simp
  have "(of_nat (100 * 39) :: rat) / of_nat 40 = 195 / 2" by simp
  with b1 have q1: "binary64 (of_nat (100 * 39) / of_nat 40) = 195 / 2" by (simp only:)
  have q2: "binary64 (of_nat (100 * 0) / of_nat 40) = 0" by (simp add: binary64_def)
  have r1: "round_ndigits (195 / 2) 2 = 195 / 2" by code_simp
  have r2: "round_ndigits 0 2 = 0"
    by (simp add: round_ndigits_def round_half_even_def binary64_def)
  have i1: "identity_of ?ga ?s2 ?s1 = Inr (195 / 2)"
    unfolding identity_of_def fst_conv al1 sum.case prod.case
    by (simp only: get_identity_value [OF len(1-3)] k q1 r1)
  have i2: "identity_of ?ga ?s3 ?s1 = Inr 0"
    unfolding identity_of_def fst_conv al2 sum.case prod.case
    by (simp only: get_identity_value [OF len(4-6)] k q2 r2)
  note split = greedy_first_match [of ?file 40 2 ?s1 "[?s3]" ?s2 "[]" ?ga 50 22 "[?s1, ?s3]"]
  note thm3 = greedy_first_match [of "[]" 0 0 "(''x'', 0)" "[]" ?s3 "[]" ?ga 0 0 "[?s1]"]
  note step = split [THEN conjunct1, THEN mp, OF d]
  have "\<exists>before j after v. [?s1, ?s3] = before @ j # after
           \<and> (\<forall>o' \<in> set before. \<exists>w. identity_of ?ga ?s2 o' = Inr w \<and> w < 97)
           \<and> identity_of ?ga ?s2 j = Inr v \<and> v \<ge> 97"
    by (intro exI [of _ "[]"] exI [of _ ?s1] exI [of _ "[?s3]"] exI [of _ "195 / 2"])
      (simp add: i1)
  then have a: "scan_OTU ?ga ?s2 [?s1, ?s3] = Inr False"
    by (rule split [THEN conjunct2, THEN conjunct1, THEN iffD2])
  have "\<forall>o' \<in> set [?s1]. \<exists>w. identity_of ?ga ?s3 o' = Inr w \<and> w < 97"
    by (simp add: i2)
  then have b: "scan_OTU ?ga ?s3 [?s1] = Inr True"
    by (rule thm3 [THEN conjunct2, THEN conjunct2, THEN iffD2])
  have pre: "clustering_loop ?ga [?s3] [?s1] = Inr [?s1, ?s3]"
    by (simp only: clustering_loop.simps b sum.case if_True append.simps)
  have res: "abundance_greedy_clustering ?ga ?file 40 2 50 22 = Inr [?s1, ?s3]"
    by (simp only: step [THEN conjunct1] pre sum.case a if_False clustering_loop.simps(1))
  from step [THEN conjunct2, THEN conjunct1, THEN spec, THEN mp, OF res]
  obtain otus where "\<exists>unique more.
        clustering_loop ?ga [?s3] [?s1] = Inr otus
      \<and> set otus \<subseteq> set (?s1 # [?s3])
      \<and> scan_OTU ?ga ?s2 otus = Inr unique
      \<and> set more \<subseteq> set []
      \<and> [?s1, ?s3] = (if unique then otus @ ?s2 # more else otus @ more)
      \<and> (?s2 \<in> set [?s1, ?s3] \<longleftrightarrow> unique)
      \<and> (unique \<longleftrightarrow>
           (\<forall>o' \<in> set otus. \<exists>w. identity_of ?ga ?s2 o' = Inr w \<and> w < 97))
      \<and> (\<not> unique \<longleftrightarrow>
           (\<exists>before j after v. otus = before @ j # after
              \<and> (\<forall>o' \<in> set before. \<exists>w. identity_of ?ga ?s2 o' = Inr w \<and> w < 97)
              \<and> identity_of ?ga ?s2 j = Inr v \<and> v \<ge> 97))" ..
  then obtain unique where "\<exists>more.
        clustering_loop ?ga [?s3] [?s1] = Inr otus
      \<and> set otus \<subseteq> set (?s1 # [?s3])
      \<and> scan_OTU ?ga ?s2 otus = Inr unique
      \<and> set more \<subseteq> set []
      \<and> [?s1, ?s3] = (if unique then otus @ ?s2 # more else otus @ more)
      \<and> (?s2 \<in> set [?s1, ?s3] \<longleftrightarrow> unique)
      \<and> (unique \<longleftrightarrow>
           (\<forall>o' \<in> set otus. \<exists>w. identity_of ?ga ?s2 o' = Inr w \<and> w < 97))
      \<and> (\<not> unique \<longleftrightarrow>
           (\<exists>before j after v. otus = before @ j # after
              \<and> (\<forall>o' \<in> set before. \<exists>w. identity_of ?ga ?s2 o' = Inr w \<and> w < 97)
              \<and> identity_of ?ga ?s2 j = Inr v \<and> v \<ge> 97))" ..
  then obtain more where body:
       "clustering_loop ?ga [?s3] [?s1] = Inr otus
      \<and> set otus \<subseteq> set (?s1 # [?s3])
      \<and> scan_OTU ?ga ?s2 otus = Inr unique
      \<and> set more \<subseteq> set []
      \<and> [?s1, ?s3] = (if unique then otus @ ?s2 # more else otus @ more)
      \<and> (?s2 \<in> set [?s1, ?s3] \<longleftrightarrow> unique)
      \<and> (unique \<longleftrightarrow>
           (\<forall>o' \<in> set otus. \<exists>w. identity_of ?ga ?s2 o' = Inr w \<and> w < 97))
      \<and> (\<not> unique \<longleftrightarrow>
           (\<exists>before j after v. otus = before @ j # after
              \<and> (\<forall>o' \<in> set before. \<exists>w. identity_of ?ga ?s2 o' = Inr w \<and> w < 97)
              \<and> identity_of ?ga ?s2 j = Inr v \<and> v \<ge> 97))" ..
  note o1 = body [THEN conjunct1]
  note o3 = body [THEN conjunct2, THEN conjunct2, THEN conjunct1]
  note o6 = body [THEN conjunct2, THEN conjunct2, THEN conjunct2, THEN conjunct2,
      THEN conjunct2, THEN conjunct1]
  from o1 pre have "otus = [?s1, ?s3]" by (simp only: sum.inject)
  with o3 a have "unique = False" by (simp only: sum.inject)
  with o6 have out: "?s2 \<notin> set [?s1, ?s3]" by (simp only: simp_thms)
  let ?file2 = "[''>r1'', ''AAAA'', ''>r2'', ''AAAA'', ''>r3'', ''TTTT'', ''>r4'', ''TTTT'',
      ''>r5'', ''TTTT'', ''>r6'', ''CCCC'', ''>r7'', ''CCCC'']"
  let ?T = "(''TTTT'', 3 :: int)" and ?C = "(''CCCC'', 2 :: int)" and ?A = "(''AAAA'', 2 :: int)"
  have d2: "dereplication_fulllength ?file2 4 2 = ?T # [?C] @ ?A # []" by code_simp
  note total = greedy_first_match [of ?file2 4 2 ?T "[?C]" ?A "[]" pad_align 50 22 "[]"]
  note step2 = total [THEN conjunct1, THEN mp, OF d2]
  have defined: "\<forall>i \<in> set ([?C] @ ?A # []). \<forall>j \<in> set (?T # [?C] @ ?A # []).
      \<exists>v. identity_of pad_align i j = Inr v"
    by (auto intro!: identity_of_pad_align)
  from step2 [THEN conjunct2, THEN conjunct2, THEN mp, OF defined] obtain res2 where
    res2: "abundance_greedy_clustering pad_align ?file2 4 2 50 22 = Inr res2" ..
  have l2: "clustering_loop pad_align [?C] [?T] = Inr [?T, ?C]" by code_simp
  have s2: "scan_OTU pad_align ?A [?T, ?C] = Inr True" by code_simp
  have "abundance_greedy_clustering pad_align ?file2 4 2 50 22 = Inr [?T, ?C, ?A]"
    by (simp only: step2 [THEN conjunct1] l2 sum.case s2 if_True clustering_loop.simps(1)
        append.simps)
  with res2 have full: "abundance_greedy_clustering pad_align ?file2 4 2 50 22
      = Inr [?T, ?C, ?A]"
    by (simp only:)
  from d i1 a b res out d2 full show ?thesis by (simp only: simp_thms)
qed

text \<open>
  Claim C4. When the dereplicated stream is not empty, its first record is taken as the
  first OTU with no call of the aligner: the clustering is the loop over the rest of the
  stream, started with that record alone. Every list that the clustering returns starts
  with it; a stream of one record gives the list of that record, for every aligner; and
  when every alignment of a later record gives an identity, the clustering returns.
\<close>

theorem seed_first:
  "dereplication_fulllength amplicon_file minseqlen mincount = first # rest \<longrightarrow>
     abundance_greedy_clustering ga amplicon_file minseqlen mincount chunk_size kmer_size
       = clustering_loop ga rest [first]
     \<and> (\<forall>otus. abundance_greedy_clustering ga amplicon_file minseqlen mincount chunk_size kmer_size
            = Inr otus \<longrightarrow> (\<exists>more. otus = first # more))
     \<and> (rest = [] \<longrightarrow>
          abundance_greedy_clustering ga amplicon_file minseqlen mincount chunk_size kmer_size
            = Inr [first])
     \<and> ((\<forall>i \<in> set rest. \<forall>j \<in> set (first # rest). \<exists>v. identity_of ga i j = Inr v) \<longrightarrow>
          (\<exists>more. abundance_greedy_clustering ga amplicon_file minseqlen mincount chunk_size
             kmer_size = Inr (first # more)))"
proof (intro impI)
  assume d: "dereplication_fulllength amplicon_file minseqlen mincount = first # rest"
  let ?agc = "abundance_greedy_clustering ga amplicon_file minseqlen mincount chunk_size kmer_size"
  from d have eq: "?agc = clustering_loop ga rest [first]"
    by (simp add: abundance_greedy_clustering_def)
  have ret: "\<exists>more. otus = first # more" if "?agc = Inr otus" for otus
    using clustering_loop_prefix [of ga rest "[first]" otus] that eq by auto
  have total: "\<exists>more. ?agc = Inr (first # more)"
    if "\<forall>i \<in> set rest. \<forall>j \<in> set (first # rest). \<exists>v. identity_of ga i j = Inr v"
  proof -
    from that have "\<exists>otus. clustering_loop ga rest [first] = Inr otus"
      by (intro clustering_loop_total) simp
    then obtain otus where "?agc = Inr otus" using eq by auto
    with ret [of otus] show ?thesis by auto
  qed
  from eq ret total show "?agc = clustering_loop ga rest [first]
     \<and> (\<forall>otus. ?agc = Inr otus \<longrightarrow> (\<exists>more. otus = first # more))
     \<and> (rest = [] \<longrightarrow> ?agc = Inr [first])
     \<and> ((\<forall>i \<in> set rest. \<forall>j \<in> set (first # rest). \<exists>v. identity_of ga i j = Inr v) \<longrightarrow>
          (\<exists>more. ?agc = Inr (first # more)))"
    by auto
qed

theorem seed_first_witness:
  "dereplication_fulllength
     [''>r1'', ''AAAA'', ''>r2'', ''AAAA'', ''>r3'', ''TTTT'', ''>r4'', ''TTTT'', ''>r5'', ''TTTT''] 4 2
     = (''TTTT'', 3) # [(''AAAA'', 2)]
   \<and> abundance_greedy_clustering pad_align
       [''>r1'', ''AAAA'', ''>r2'', ''AAAA'', ''>r3'', ''TTTT'', ''>r4'', ''TTTT'', ''>r5'', ''TTTT''] 4 2
       50 22 = Inr [(''TTTT'', 3), (''AAAA'', 2)]"
proof -
  let ?file = "[''>r1'', ''AAAA'', ''>r2'', ''AAAA'', ''>r3'', ''TTTT'', ''>r4'', ''TTTT'',
      ''>r5'', ''TTTT'']"
  have d: "dereplication_fulllength ?file 4 2 = (''TTTT'', 3) # [(''AAAA'', 2)]"
    by code_simp
  have l: "clustering_loop pad_align [(''AAAA'', 2)] [(''TTTT'', 3)]
      = Inr [(''TTTT'', 3), (''AAAA'', 2)]"
    by code_simp
  from seed_first [of ?file 4 2 "(''TTTT'', 3)" "[(''AAAA'', 2)]" pad_align 50 22] d
  have "abundance_greedy_clustering pad_align ?file 4 2 50 22
      = clustering_loop pad_align [(''AAAA'', 2)] [(''TTTT'', 3)]"
    by blast
  with d l show ?thesis by simp
qed

text \<open>
  Claim C5 says that an empty dereplicated stream gives a named error for the absence of
  sequences. The call raises the \<^verbatim>\<open>StopIteration\<close> of \<^verbatim>\<open>next\<close> on the exhausted generator:
  here on one read, with a minimum count of 2.
\<close>

theorem empty_stream_counterexample:
  "abundance_greedy_clustering pad_align [''>r1'', ''ACGT''] 4 2 50 22 = Inl StopIteration"
  by code_simp

text \<open>
  Claim C5, amended. When the dereplicated stream is empty,
  \<^verbatim>\<open>abundance_greedy_clustering\<close> raises \<^verbatim>\<open>StopIteration\<close>, for every aligner.
\<close>

theorem empty_stream_StopIteration:
  "dereplication_fulllength amplicon_file minseqlen mincount = [] \<longrightarrow>
     abundance_greedy_clustering ga amplicon_file minseqlen mincount chunk_size kmer_size
       = Inl StopIteration"
  by (simp add: abundance_greedy_clustering_def)

theorem empty_stream_StopIteration_witness:
  "dereplication_fulllength [] 400 10 = []
   \<and> abundance_greedy_clustering pad_align [] 400 10 50 22 = Inl StopIteration"
proof -
  have d: "dereplication_fulllength [] 400 10 = []" by code_simp
  with empty_stream_StopIteration [of "[]" 400 10 pad_align 50 22] show ?thesis by simp
qed

text \<open>
  Claim C8. The result of \<^verbatim>\<open>abundance_greedy_clustering\<close> is the same for every two values
  of \<^verbatim>\<open>chunk_size\<close> and \<^verbatim>\<open>kmer_size\<close>.
\<close>

theorem chunk_kmer_ignored:
  "abundance_greedy_clustering ga amplicon_file minseqlen mincount chunk_size kmer_size
     = abundance_greedy_clustering ga amplicon_file minseqlen mincount chunk_size' kmer_size'"
  by (simp add: abundance_greedy_clustering_def)

end
